theory Spec2Isabelle
  imports Complex_Main
begin

section \<open>Values loaded from YAML\<close>

text \<open>
  The functions of \<^verbatim>\<open>workflows/protocols/utils.py\<close> work on what \<^verbatim>\<open>yaml.safe_load\<close>
  returns: scalars, sequences and mappings, nested at will. A mapping is a Python \<^verbatim>\<open>dict\<close>;
  it is modelled as an association list in insertion order, keyed by strings (the keys of
  the protocol files and of the magnetization table are strings). Floats are modelled as
  reals: rounding of the IEEE arithmetic is not part of the model.
\<close>

datatype pyval =
    VNone
  | VBool bool
  | VInt int
  | VFloat real
  | VStr string
  | VList "pyval list"
  | VDict "(string \<times> pyval) list"

type_synonym dict = "(string \<times> pyval) list"

text \<open>
  The exceptions of Python that the code can raise, and \<open>NotAMapping\<close> for the one kind of
  input the model does not follow (see \<open>merge_loaded\<close> below).
\<close>

datatype error =
    KeyError | TypeError | AttributeError | IndexError | ZeroDivisionError | ValueError
  | NotAMapping

text \<open>
  A Python \<^verbatim>\<open>dict\<close> never holds a key twice. \<open>wf_val\<close> says so for a value and for every
  mapping nested in it.
\<close>

fun wf_val :: "pyval \<Rightarrow> bool" where
  "wf_val (VDict d) = (distinct (map fst d) \<and> (\<forall>kv \<in> set d. wf_val (snd kv)))"
| "wf_val (VList xs) = (\<forall>x \<in> set xs. wf_val x)"
| "wf_val _ = True"

definition wf_dict :: "dict \<Rightarrow> bool" where
  "wf_dict d = wf_val (VDict d)"

subsection \<open>The operations of \<^verbatim>\<open>dict\<close> that the code uses\<close>

text \<open>\<^verbatim>\<open>d[k] = v\<close>: an existing key keeps its place, a new key goes to the end.\<close>

fun dict_setitem :: "string \<Rightarrow> pyval \<Rightarrow> dict \<Rightarrow> dict" where
  "dict_setitem k v [] = [(k, v)]"
| "dict_setitem k v ((k', v') # d) =
     (if k' = k then (k, v) # d else (k', v') # dict_setitem k v d)"

text \<open>\<^verbatim>\<open>d.update(other)\<close>: the items of \<open>other\<close> are stored one after the other.\<close>

definition dict_update :: "dict \<Rightarrow> dict \<Rightarrow> dict" where
  "dict_update d other = fold (\<lambda>(k, v) m. dict_setitem k v m) other d"

text \<open>\<^verbatim>\<open>d.pop(k)\<close> with no default: the key is removed, a missing key raises \<^verbatim>\<open>KeyError\<close>.\<close>

definition without_key :: "string \<Rightarrow> dict \<Rightarrow> dict" where
  "without_key k d = filter (\<lambda>kv. fst kv \<noteq> k) d"

definition dict_pop :: "string \<Rightarrow> dict \<Rightarrow> error + dict" where
  "dict_pop k d =
     (case map_of d k of
        None \<Rightarrow> Inl KeyError
      | Some v \<Rightarrow> Inr (without_key k d))"

text \<open>\<^verbatim>\<open>obj[k]\<close> for a string \<open>k\<close>: only a mapping can be subscripted by a string.\<close>

fun getitem :: "pyval \<Rightarrow> string \<Rightarrow> error + pyval" where
  "getitem (VDict d) k = (case map_of d k of None \<Rightarrow> Inl KeyError | Some v \<Rightarrow> Inr v)"
| "getitem _ k = Inl TypeError"

text \<open>
  \<^verbatim>\<open>xs[i]\<close> for a sequence and an integer: negative indices count from the end, an index out
  of range raises \<^verbatim>\<open>IndexError\<close>.
\<close>

definition seq_index :: "'a list \<Rightarrow> int \<Rightarrow> error + 'a" where
  "seq_index xs i =
     (if 0 \<le> i \<and> i < int (length xs) then Inr (xs ! nat i)
      else if i < 0 \<and> - int (length xs) \<le> i then Inr (xs ! nat (int (length xs) + i))
      else Inl IndexError)"

text \<open>
  \<^verbatim>\<open>obj[key]\<close> where the key is itself a loaded value, as in
  \<^verbatim>\<open>data['protocols'][data['default']]\<close>. A mapping keyed by strings has no entry for a
  key that is not a string; a list or a mapping is not hashable and cannot be a key at all;
  sequences are indexed by integers (and booleans, which are integers in Python).
\<close>

fun getitem_val :: "pyval \<Rightarrow> pyval \<Rightarrow> error + pyval" where
  "getitem_val (VDict d) (VStr k) = getitem (VDict d) k"
| "getitem_val (VDict d) (VList xs) = Inl TypeError"
| "getitem_val (VDict d) (VDict d') = Inl TypeError"
| "getitem_val (VDict d) key = Inl KeyError"
| "getitem_val (VList xs) (VInt i) = seq_index xs i"
| "getitem_val (VList xs) (VBool b) = seq_index xs (if b then 1 else 0)"
| "getitem_val (VStr s) (VInt i) = map_sum id (\<lambda>c. VStr [c]) (seq_index s i)"
| "getitem_val (VStr s) (VBool b) = map_sum id (\<lambda>c. VStr [c]) (seq_index s (if b then 1 else 0))"
| "getitem_val obj key = Inl TypeError"

section \<open>Recursive merge\<close>

text \<open>
  \<^verbatim>\<open>recursive_merge(left, right)\<close> first walks over the items of \<open>left\<close>; where a key is also
  in \<open>right\<close> and both values are mappings, it stores the merge of the two values in \<open>right\<close>
  under that key. \<open>merge_loop\<close> is this loop, with \<open>right\<close> as its state. The function then
  copies \<open>left\<close>, updates the copy with \<open>right\<close> and returns it. \<open>right\<close> is a mutable
  object of the caller, so the model returns its final content next to the merged mapping:
  \<open>recursive_merge left right = (merged, right')\<close>. \<open>left\<close> is only read.

  Values are modelled as trees: no mapping object is reachable along two different paths
  of the arguments, which is what the YAML files give (the spec calls the inputs
  tree-shaped).
\<close>

fun merge_loop :: "(string \<times> pyval) list \<Rightarrow> dict \<Rightarrow> dict"
  and recursive_merge :: "dict \<Rightarrow> dict \<Rightarrow> dict \<times> dict" where
  "merge_loop [] right = right"
| "merge_loop ((key, value) # items) right =
     merge_loop items
       (case map_of right key of
          None \<Rightarrow> right
        | Some rv \<Rightarrow>
            (case (value, rv) of
               (VDict lv, VDict rd) \<Rightarrow>
                 dict_setitem key (VDict (fst (recursive_merge lv rd))) right
             | _ \<Rightarrow> right))"
| "recursive_merge left right =
     (let right' = merge_loop left right in (dict_update left right', right'))"

section \<open>Protocol files\<close>

text \<open>
  \<^verbatim>\<open>load_protocol_file(cls)\<close> reads and parses a file; what it returns is the parameter
  \<open>data\<close> of the functions below.
\<close>

definition get_default_protocol :: "pyval \<Rightarrow> error + pyval" where
  "get_default_protocol data = getitem data ''default''"

text \<open>
  \<^verbatim>\<open>{protocol: {'description': values['description']} for protocol, values in
  data['protocols'].items()}\<close>: the comprehension stores one entry per item, in order, and
  stops at the first failing lookup. Only a mapping has \<^verbatim>\<open>items\<close>.
\<close>

fun descriptions_loop :: "(string \<times> pyval) list \<Rightarrow> dict \<Rightarrow> error + dict" where
  "descriptions_loop [] acc = Inr acc"
| "descriptions_loop ((protocol, values) # items) acc =
     (case getitem values ''description'' of
        Inl e \<Rightarrow> Inl e
      | Inr d \<Rightarrow>
          descriptions_loop items (dict_setitem protocol (VDict [(''description'', d)]) acc))"

definition get_available_protocols :: "pyval \<Rightarrow> error + dict" where
  "get_available_protocols data =
     (case getitem data ''protocols'' of
        Inl e \<Rightarrow> Inl e
      | Inr (VDict protocols) \<Rightarrow> descriptions_loop protocols []
      | Inr _ \<Rightarrow> Inl AttributeError)"

text \<open>
  The call \<^verbatim>\<open>recursive_merge(data['base'], data['protocols'][protocol])\<close> on two loaded
  values. A \<open>left\<close> that is not a mapping has no \<^verbatim>\<open>items\<close>: \<^verbatim>\<open>AttributeError\<close>. A \<open>right\<close>
  that is \<^verbatim>\<open>None\<close>, a boolean or a number fails with \<^verbatim>\<open>TypeError\<close>, at \<^verbatim>\<open>key in right\<close> or,
  for an empty \<open>left\<close>, at \<^verbatim>\<open>merged.update(right)\<close>. A \<open>right\<close> that is a string or a
  sequence is no protocol entry of the document format; Python tests \<^verbatim>\<open>key in right\<close> by
  substring or by membership and reads the value as a sequence of pairs in
  \<^verbatim>\<open>merged.update(right)\<close>, which fails in general. The model does not follow this case and
  answers \<open>NotAMapping\<close>.
\<close>

fun merge_loaded :: "pyval \<Rightarrow> pyval \<Rightarrow> error + dict" where
  "merge_loaded (VDict left) (VDict right) = Inr (fst (recursive_merge left right))"
| "merge_loaded (VDict left) (VStr s) = Inl NotAMapping"
| "merge_loaded (VDict left) (VList xs) = Inl NotAMapping"
| "merge_loaded (VDict left) right = Inl TypeError"
| "merge_loaded left right = Inl AttributeError"

text \<open>
  \<^verbatim>\<open>get_protocol_inputs(cls, protocol=None, overrides=None)\<close>. \<^verbatim>\<open>protocol or data['default']\<close>
  takes the default when \<open>protocol\<close> is \<^verbatim>\<open>None\<close> or the empty string; \<^verbatim>\<open>if overrides:\<close> is
  false for \<^verbatim>\<open>None\<close> and for the empty mapping. The result is the returned mapping together
  with the content of the caller's \<open>overrides\<close> object after the call.
\<close>

definition get_protocol_inputs ::
  "pyval \<Rightarrow> string option \<Rightarrow> dict option \<Rightarrow> error + dict \<times> dict option" where
  "get_protocol_inputs data protocol overrides =
     (case (case protocol of
              None \<Rightarrow> getitem data ''default''
            | Some p \<Rightarrow> if p = [] then getitem data ''default'' else Inr (VStr p)) of
        Inl e \<Rightarrow> Inl e
      | Inr protocol' \<Rightarrow>
     (case getitem data ''base'' of
        Inl e \<Rightarrow> Inl e
      | Inr base \<Rightarrow>
     (case getitem data ''protocols'' of
        Inl e \<Rightarrow> Inl e
      | Inr protocols \<Rightarrow>
     (case getitem_val protocols protocol' of
        Inl e \<Rightarrow> Inl e
      | Inr entry \<Rightarrow>
     (case merge_loaded base entry of
        Inl e \<Rightarrow> Inl e
      | Inr merged \<Rightarrow>
     (case dict_pop ''description'' merged of
        Inl e \<Rightarrow> Inl e
      | Inr inputs \<Rightarrow>
     (case overrides of
        None \<Rightarrow> Inr (inputs, None)
      | Some ov \<Rightarrow>
          if ov = [] then Inr (inputs, Some ov)
          else Inr (fst (recursive_merge inputs ov), Some (snd (recursive_merge inputs ov))))))))))"

section \<open>Initial magnetization\<close>

text \<open>
  A kind of the structure has a chemical symbol and a name. The magnetization table is the
  content of \<^verbatim>\<open>magnetization.yaml\<close>, a parameter here. The pseudopotential family belongs to
  another library; \<open>pseudo_family sym\<close> stands for
  \<^verbatim>\<open>pseudo_family.get_pseudo(element=sym).z_valence\<close>, an integer or the error raised.
\<close>

record kind =
  symbol :: string
  name :: string

text \<open>
  The numeric value of a loaded value, if it is a number (a boolean is the integer 0 or 1
  in Python); \<^verbatim>\<open>None\<close>, strings, sequences and mappings are not numbers.
\<close>

fun as_number :: "pyval \<Rightarrow> real option" where
  "as_number (VInt i) = Some (real_of_int i)"
| "as_number (VFloat x) = Some x"
| "as_number (VBool b) = Some (if b then 1 else 0)"
| "as_number _ = None"

text \<open>\<^verbatim>\<open>magnetic_moment == 0\<close>: numbers compare by value, nothing else equals \<^verbatim>\<open>0\<close>.\<close>

definition eq_zero :: "pyval \<Rightarrow> bool" where
  "eq_zero v = (as_number v = Some 0)"

text \<open>
  \<^verbatim>\<open>magnetic_moment /= float(z_valence)\<close>: true division by a float. A left operand that
  is not a number raises \<^verbatim>\<open>TypeError\<close>, a zero divisor \<^verbatim>\<open>ZeroDivisionError\<close>.
\<close>

definition truediv_float :: "pyval \<Rightarrow> real \<Rightarrow> error + pyval" where
  "truediv_float v z =
     (case as_number v of
        None \<Rightarrow> Inl TypeError
      | Some x \<Rightarrow> if z = 0 then Inl ZeroDivisionError else Inr (VFloat (x / z)))"

text \<open>The body of the loop over the kinds: the moment assigned to one kind.\<close>

definition kind_moment :: "pyval \<Rightarrow> (string \<Rightarrow> error + int) \<Rightarrow> kind \<Rightarrow> error + pyval" where
  "kind_moment magnetic_parameters pseudo_family k =
     (case getitem magnetic_parameters (symbol k) of
        Inl e \<Rightarrow> Inl e
      | Inr entry \<Rightarrow>
     (case getitem entry ''magmom'' of
        Inl e \<Rightarrow> Inl e
      | Inr magnetic_moment \<Rightarrow>
          if eq_zero magnetic_moment then getitem magnetic_parameters ''default''
          else (case pseudo_family (symbol k) of
                  Inl e \<Rightarrow> Inl e
                | Inr z_valence \<Rightarrow> truediv_float magnetic_moment (real_of_int z_valence))))"

fun magnetization_loop ::
  "pyval \<Rightarrow> (string \<Rightarrow> error + int) \<Rightarrow> kind list \<Rightarrow> dict \<Rightarrow> error + dict" where
  "magnetization_loop magnetic_parameters pseudo_family [] initial_magnetization =
     Inr initial_magnetization"
| "magnetization_loop magnetic_parameters pseudo_family (k # kinds) initial_magnetization =
     (case kind_moment magnetic_parameters pseudo_family k of
        Inl e \<Rightarrow> Inl e
      | Inr magnetic_moment \<Rightarrow>
          magnetization_loop magnetic_parameters pseudo_family kinds
            (dict_setitem (name k) magnetic_moment initial_magnetization))"

definition get_initial_magnetization ::
  "pyval \<Rightarrow> kind list \<Rightarrow> (string \<Rightarrow> error + int) \<Rightarrow> error + dict" where
  "get_initial_magnetization magnetic_parameters kinds pseudo_family =
     magnetization_loop magnetic_parameters pseudo_family kinds []"

section \<open>Notions used to state the properties\<close>

text \<open>\<^verbatim>\<open>isinstance(v, collections.abc.Mapping)\<close> on a loaded value.\<close>

fun is_mapping :: "pyval \<Rightarrow> bool" where
  "is_mapping (VDict d) = True"
| "is_mapping _ = False"

text \<open>The value found by following a path of keys down nested mappings.\<close>

fun at_path :: "pyval \<Rightarrow> string list \<Rightarrow> pyval option" where
  "at_path v [] = Some v"
| "at_path (VDict d) (k # ks) = (case map_of d k of None \<Rightarrow> None | Some v \<Rightarrow> at_path v ks)"
| "at_path _ (k # ks) = None"

section \<open>Example data\<close>

text \<open>
  Small mappings in the style of a protocol file, a magnetization table, a structure with
  three kinds and a pseudopotential family, used to instantiate the theorems.
\<close>

definition ex_left :: dict where
  "ex_left = [(''pw'', VDict [(''ecutwfc'', VInt 30), (''kpts'', VList [VInt 2, VInt 2])]),
              (''clean'', VBool True)]"

definition ex_right :: dict where
  "ex_right = [(''pw'', VDict [(''kpts'', VList [VInt 4]), (''nbnd'', VInt 8)]),
               (''description'', VStr ''fast'')]"

definition ex_doc :: pyval where
  "ex_doc = VDict
     [(''default'', VStr ''moderate''),
      (''base'', VDict [(''pw'', VDict [(''ecutwfc'', VInt 30), (''kpts'', VList [VInt 2, VInt 2])]),
                        (''clean'', VBool True)]),
      (''protocols'', VDict
         [(''moderate'', VDict [(''description'', VStr ''balanced'')]),
          (''fast'', VDict [(''description'', VStr ''quick''),
                            (''pw'', VDict [(''ecutwfc'', VInt 20)])])])]"

definition ex_base :: dict where
  "ex_base = [(''pw'', VDict [(''ecutwfc'', VInt 30), (''kpts'', VList [VInt 2, VInt 2])]),
              (''clean'', VBool True)]"

definition ex_protocols :: dict where
  "ex_protocols =
     [(''moderate'', VDict [(''description'', VStr ''balanced'')]),
      (''fast'', VDict [(''description'', VStr ''quick''),
                        (''pw'', VDict [(''ecutwfc'', VInt 20)])])]"

definition ex_overrides :: dict where
  "ex_overrides = [(''pw'', VDict [(''ecutwfc'', VInt 50)])]"

definition ex_fast_inputs :: dict where
  "ex_fast_inputs = [(''pw'', VDict [(''ecutwfc'', VInt 20), (''kpts'', VList [VInt 2, VInt 2])]),
                     (''clean'', VBool True)]"

definition ex_unnamed_doc :: pyval where
  "ex_unnamed_doc = VDict
     [(''default'', VStr ''fast''),
      (''base'', VDict []),
      (''protocols'', VDict
         [('''', VDict [(''description'', VStr ''unnamed''), (''k'', VInt 1)]),
          (''fast'', VDict [(''description'', VStr ''quick''), (''k'', VInt 2)])])]"

definition ex_table_entries :: dict where
  "ex_table_entries =
     [(''default'', VFloat (1 / 10)),
      (''Fe'', VDict [(''magmom'', VInt 5)]),
      (''O'', VDict [(''magmom'', VInt 0)])]"

definition ex_kinds :: "kind list" where
  "ex_kinds = [\<lparr>symbol = ''Fe'', name = ''Fe1''\<rparr>, \<lparr>symbol = ''Fe'', name = ''Fe2''\<rparr>,
               \<lparr>symbol = ''O'', name = ''O''\<rparr>]"

definition ex_family :: "string \<Rightarrow> error + int" where
  "ex_family el = (if el = ''Fe'' then Inr 16 else if el = ''O'' then Inr 6 else Inl ValueError)"

definition ex_unknown_kind :: kind where
  "ex_unknown_kind = \<lparr>symbol = ''Xx'', name = ''Xx1''\<rparr>"

section \<open>Facts about the dictionary operations\<close>

declare recursive_merge.simps [simp del]

lemma keys_setitem:
  "map fst (dict_setitem k v d) = (if k \<in> fst ` set d then map fst d else map fst d @ [k])"
proof (induction d)
  case Nil
  then show ?case by simp
next
  case (Cons a d)
  then show ?case by (cases a) force
qed

lemma keyset_setitem: "fst ` set (dict_setitem k v d) = insert k (fst ` set d)"
proof -
  have "set (map fst (dict_setitem k v d)) = insert k (set (map fst d))"
    unfolding keys_setitem by auto
  then show ?thesis by simp
qed

lemma map_of_setitem:
  "map_of (dict_setitem k v d) k' = (if k' = k then Some v else map_of d k')"
  by (induction d) auto

lemma setitem_same: "map_of d k = Some v \<Longrightarrow> dict_setitem k v d = d"
  by (induction d) (auto split: if_splits)

lemma distinct_setitem: "distinct (map fst d) \<Longrightarrow> distinct (map fst (dict_setitem k v d))"
  by (simp add: keys_setitem)

lemma set_setitem: "set (dict_setitem k v d) \<subseteq> insert (k, v) (set d)"
  by (induction d) (auto split: if_splits)

lemma wf_setitem: "wf_dict d \<Longrightarrow> wf_val v \<Longrightarrow> wf_dict (dict_setitem k v d)"
  unfolding wf_dict_def using set_setitem [of k v d] by (auto simp: distinct_setitem)

lemma keys_update:
  "set (map fst (dict_update d r)) = fst ` set d \<union> fst ` set r"
  unfolding dict_update_def
proof (induction r arbitrary: d)
  case Nil
  then show ?case by simp
next
  case (Cons kv r)
  obtain k' v' where kv: "kv = (k', v')" by (cases kv)
  show ?case using Cons.IH [of "dict_setitem k' v' d"]
    by (simp add: kv keyset_setitem)
qed

lemma distinct_update: "distinct (map fst d) \<Longrightarrow> distinct (map fst (dict_update d r))"
  unfolding dict_update_def
  by (induction r arbitrary: d) (auto simp: distinct_setitem)

lemma map_of_update:
  "distinct (map fst r) \<Longrightarrow>
   map_of (dict_update d r) k = (case map_of r k of Some v \<Rightarrow> Some v | None \<Rightarrow> map_of d k)"
  unfolding dict_update_def
proof (induction r arbitrary: d)
  case Nil
  then show ?case by simp
next
  case (Cons kv r)
  obtain k' v' where kv: "kv = (k', v')" by (cases kv)
  from Cons.prems kv have notin: "map_of r k' = None"
    by (simp add: map_of_eq_None_iff)
  from Cons.prems have "distinct (map fst r)" by simp
  from Cons.IH [OF this, of "dict_setitem k' v' d"] kv notin show ?case
    by (auto simp: map_of_setitem split: option.splits)
qed

lemma wf_update: "wf_dict d \<Longrightarrow> wf_dict r \<Longrightarrow> wf_dict (dict_update d r)"
  unfolding dict_update_def
proof (induction r arbitrary: d)
  case Nil
  then show ?case by simp
next
  case (Cons kv r)
  obtain k' v' where kv: "kv = (k', v')" by (cases kv)
  from Cons.prems(2) kv have "wf_val v'" "wf_dict r" by (auto simp: wf_dict_def)
  with Cons.IH [of "dict_setitem k' v' d"] Cons.prems(1) kv show ?case
    by (simp add: wf_setitem)
qed

lemma update_self: "distinct (map fst d) \<Longrightarrow> set r \<subseteq> set d \<Longrightarrow> dict_update d r = d"
  unfolding dict_update_def
  by (induction r) (auto simp: setitem_same)

lemma keys_merge_loop: "map fst (merge_loop items right) = map fst right"
proof (induction items arbitrary: right)
  case Nil
  then show ?case by simp
next
  case (Cons kv items)
  obtain key "value" where kv: "kv = (key, value)" by (cases kv)
  show ?case unfolding kv
    by (auto simp: Cons.IH keys_setitem split: option.splits pyval.splits dest: map_of_SomeD)
       (metis fst_conv image_eqI map_of_SomeD)+
qed

section \<open>Facts about the merge\<close>

lemma map_of_merge_loop:
  "distinct (map fst items) \<Longrightarrow>
   map_of (merge_loop items right) k =
     (case map_of right k of
        None \<Rightarrow> None
      | Some rv \<Rightarrow>
          (case (map_of items k, rv) of
             (Some (VDict lv), VDict rd) \<Rightarrow> Some (VDict (fst (recursive_merge lv rd)))
           | _ \<Rightarrow> Some rv))"
proof (induction items arbitrary: right)
  case Nil
  then show ?case by (simp split: option.splits pyval.splits)
next
  case (Cons kv items)
  obtain key "value" where kv: "kv = (key, value)" by (cases kv)
  from Cons.prems kv have d: "distinct (map fst items)" and notin: "map_of items key = None"
    by (auto simp: map_of_eq_None_iff)
  note IH = Cons.IH [OF d]
  show ?case
  proof (cases "k = key")
    case True
    show ?thesis unfolding kv
      by (simp add: IH [unfolded True] True notin map_of_setitem split: option.splits pyval.splits)
  next
    case False
    show ?thesis unfolding kv
      by (simp add: IH False map_of_setitem split: option.splits pyval.splits)
  qed
qed

lemma wf_dict_entry: "wf_dict d \<Longrightarrow> map_of d k = Some v \<Longrightarrow> wf_val v"
  unfolding wf_dict_def by (auto dest: map_of_SomeD)

lemma wf_merge:
  "(wf_dict right \<longrightarrow> (\<forall>kv \<in> set items. wf_val (snd kv)) \<longrightarrow> wf_dict (merge_loop items right))"
  "(wf_dict left \<longrightarrow> wf_dict right' \<longrightarrow>
      wf_dict (fst (recursive_merge left right')) \<and> wf_dict (snd (recursive_merge left right')))"
proof (induction items right and left right' rule: merge_loop_recursive_merge.induct)
  case (1 right)
  then show ?case by simp
next
  case (2 key "value" items right)
  show ?case
  proof (intro impI)
    assume wr: "wf_dict right" and wi: "\<forall>kv \<in> set ((key, value) # items). wf_val (snd kv)"
    let ?r1 = "case map_of right key of
          None \<Rightarrow> right
        | Some rv \<Rightarrow>
            (case value of
               VDict lv \<Rightarrow>
                 (case rv of
                    VDict rd \<Rightarrow> dict_setitem key (VDict (fst (recursive_merge lv rd))) right
                  | _ \<Rightarrow> right)
             | _ \<Rightarrow> right)"
    have step: "merge_loop ((key, value) # items) right = merge_loop items ?r1"
      by (cases "map_of right key") simp_all
    have "wf_dict ?r1"
    proof (cases "map_of right key")
      case None
      then show ?thesis using wr by simp
    next
      case (Some rv)
      show ?thesis
      proof (cases "\<exists>lv rd. value = VDict lv \<and> rv = VDict rd")
        case True
        then obtain lv rd where v: "value = VDict lv" and r: "rv = VDict rd" by blast
        from wi v have "wf_dict lv" by (simp add: wf_dict_def)
        moreover from wf_dict_entry [OF wr Some] r have "wf_dict rd" by (simp add: wf_dict_def)
        ultimately have "wf_dict (fst (recursive_merge lv rd))"
          using "2.IH"(1) [OF Some refl v r] by blast
        then have "wf_val (VDict (fst (recursive_merge lv rd)))" by (simp add: wf_dict_def)
        from wf_setitem [OF wr this] show ?thesis using Some v r by simp
      next
        case False
        then show ?thesis using wr Some by (auto split: pyval.splits)
      qed
    qed
    moreover from wi have "\<forall>kv \<in> set items. wf_val (snd kv)" by simp
    ultimately have "wf_dict (merge_loop items ?r1)" using "2.IH"(2) by blast
    then show "wf_dict (merge_loop ((key, value) # items) right)" by (simp only: step)
  qed
next
  case (3 left right)
  show ?case
  proof (intro impI)
    assume wl: "wf_dict left" and wr: "wf_dict right"
    from wl have "\<forall>kv \<in> set left. wf_val (snd kv)" by (simp add: wf_dict_def)
    with "3.IH" wr have w: "wf_dict (merge_loop left right)" by blast
    from wf_update [OF wl w] w
    show "wf_dict (fst (recursive_merge left right)) \<and> wf_dict (snd (recursive_merge left right))"
      by (simp add: Let_def recursive_merge.simps)
  qed
qed

lemma merge_self:
  "(distinct (map fst right) \<longrightarrow> (\<forall>kv \<in> set items. wf_val (snd kv)) \<longrightarrow> set items \<subseteq> set right \<longrightarrow>
      merge_loop items right = right)"
  "(wf_dict left \<longrightarrow> left = right' \<longrightarrow> recursive_merge left right' = (left, left))"
proof (induction items right and left right' rule: merge_loop_recursive_merge.induct)
  case (1 right)
  then show ?case by simp
next
  case (2 key "value" items right)
  show ?case
  proof (intro impI)
    assume d: "distinct (map fst right)" and wi: "\<forall>kv \<in> set ((key, value) # items). wf_val (snd kv)"
      and sub: "set ((key, value) # items) \<subseteq> set right"
    from sub d have look: "map_of right key = Some value" by simp
    let ?r1 = "case map_of right key of
          None \<Rightarrow> right
        | Some rv \<Rightarrow>
            (case value of
               VDict lv \<Rightarrow>
                 (case rv of
                    VDict rd \<Rightarrow> dict_setitem key (VDict (fst (recursive_merge lv rd))) right
                  | _ \<Rightarrow> right)
             | _ \<Rightarrow> right)"
    have step: "merge_loop ((key, value) # items) right = merge_loop items ?r1"
      by (cases "map_of right key") simp_all
    have "?r1 = right"
    proof (cases "\<exists>lv. value = VDict lv")
      case True
      then obtain lv where v: "value = VDict lv" by blast
      from wi v have "wf_dict lv" by (simp add: wf_dict_def)
      with "2.IH"(1) [OF look refl v v] have "recursive_merge lv lv = (lv, lv)" by blast
      then show ?thesis using look v by (simp add: setitem_same)
    next
      case False
      then show ?thesis using look by (auto split: pyval.splits)
    qed
    moreover from wi sub have "\<forall>kv \<in> set items. wf_val (snd kv)" "set items \<subseteq> set right"
      by simp_all
    ultimately have "merge_loop items ?r1 = right" using "2.IH"(2) d by simp
    then show "merge_loop ((key, value) # items) right = right" by (simp only: step)
  qed
next
  case (3 left right)
  show ?case
  proof (intro impI)
    assume wl: "wf_dict left" and eq: "left = right"
    from wl have d: "distinct (map fst left)" and w: "\<forall>kv \<in> set left. wf_val (snd kv)"
      by (simp_all add: wf_dict_def)
    with "3.IH" eq have "merge_loop left right = left" by blast
    then show "recursive_merge left right = (left, left)"
      using eq d by (simp add: Let_def update_self recursive_merge.simps)
  qed
qed

lemma lookup_merged:
  assumes "distinct (map fst right)"
  shows "map_of (fst (recursive_merge left right)) k =
      (case map_of (merge_loop left right) k of Some v \<Rightarrow> Some v | None \<Rightarrow> map_of left k)"
proof -
  have "distinct (map fst (merge_loop left right))" using assms by (simp add: keys_merge_loop)
  from map_of_update [OF this, of left k] show ?thesis
    by (simp add: recursive_merge.simps [of left right] Let_def)
qed

lemma merged_both:
  assumes "wf_dict left" and "wf_dict right"
    and "map_of left k = Some (VDict lv)" and "map_of right k = Some (VDict rd)"
  shows "map_of (fst (recursive_merge left right)) k = Some (VDict (fst (recursive_merge lv rd)))"
proof -
  from assms have dl: "distinct (map fst left)" and dr: "distinct (map fst right)"
    by (simp_all add: wf_dict_def)
  from assms(3,4) show ?thesis
    by (simp add: lookup_merged [OF dr] map_of_merge_loop [OF dl])
qed

lemma merged_right_wins:
  assumes "wf_dict left" and "wf_dict right"
    and "map_of left k = Some a" and "map_of right k = Some b"
    and "\<not> (is_mapping a \<and> is_mapping b)"
  shows "map_of (fst (recursive_merge left right)) k = Some b"
proof -
  from assms have dl: "distinct (map fst left)" and dr: "distinct (map fst right)"
    by (simp_all add: wf_dict_def)
  from assms(3-5) show ?thesis
    by (cases a; cases b) (simp_all add: lookup_merged [OF dr] map_of_merge_loop [OF dl])
qed

lemma merged_left_only:
  assumes "wf_dict left" and "wf_dict right"
    and "map_of left k = Some a" and "map_of right k = None"
  shows "map_of (fst (recursive_merge left right)) k = Some a"
proof -
  from assms have dl: "distinct (map fst left)" and dr: "distinct (map fst right)"
    by (simp_all add: wf_dict_def)
  from assms(3,4) show ?thesis
    by (simp add: lookup_merged [OF dr] map_of_merge_loop [OF dl])
qed

lemma merged_right_only:
  assumes "wf_dict left" and "wf_dict right"
    and "map_of left k = None" and "map_of right k = Some b"
  shows "map_of (fst (recursive_merge left right)) k = Some b"
proof -
  from assms have dl: "distinct (map fst left)" and dr: "distinct (map fst right)"
    by (simp_all add: wf_dict_def)
  from assms(3,4) show ?thesis
    by (simp add: lookup_merged [OF dr] map_of_merge_loop [OF dl])
qed

lemma merge_leaf:
  "wf_dict left \<Longrightarrow> wf_dict right \<Longrightarrow> at_path (VDict right) path = Some v \<Longrightarrow> \<not> is_mapping v \<Longrightarrow>
   at_path (VDict (fst (recursive_merge left right))) path = Some v"
proof (induction path arbitrary: left right)
  case Nil
  then show ?case by auto
next
  case (Cons k ks)
  from Cons.prems(3) obtain rv where rv: "map_of right k = Some rv" and at: "at_path rv ks = Some v"
    by (auto split: option.splits)
  show ?case
  proof (cases "\<exists>lv rd. map_of left k = Some (VDict lv) \<and> rv = VDict rd")
    case True
    then obtain lv rd where l: "map_of left k = Some (VDict lv)" and r: "rv = VDict rd" by blast
    from wf_dict_entry [OF Cons.prems(1) l] have wl: "wf_dict lv" by (simp add: wf_dict_def)
    from wf_dict_entry [OF Cons.prems(2) rv] r have wr: "wf_dict rd" by (simp add: wf_dict_def)
    from at r have "at_path (VDict rd) ks = Some v" by simp
    from Cons.IH [OF wl wr this Cons.prems(4)] merged_both [OF Cons.prems(1,2) l rv [unfolded r]]
    show ?thesis by simp
  next
    case False
    have "map_of (fst (recursive_merge left right)) k = Some rv"
    proof (cases "map_of left k")
      case None
      then show ?thesis by (rule merged_right_only [OF Cons.prems(1,2) _ rv])
    next
      case (Some a)
      with False have "\<not> (is_mapping a \<and> is_mapping rv)"
        by (cases a; cases rv) simp_all
      with Some show ?thesis by (rule merged_right_wins [OF Cons.prems(1,2) _ rv])
    qed
    with at show ?thesis by simp
  qed
qed

section \<open>Facts about the protocol functions\<close>

lemma pop_present:
  "k \<in> fst ` set d \<Longrightarrow> dict_pop k d = Inr (without_key k d)"
  by (auto simp: dict_pop_def map_of_eq_None_iff split: option.splits)

lemma description_popped:
  assumes "''description'' \<in> fst ` set entry"
  shows "dict_pop ''description'' (fst (recursive_merge base entry)) =
     Inr (without_key ''description'' (fst (recursive_merge base entry)))"
proof -
  have "fst ` set (fst (recursive_merge base entry)) =
      fst ` set base \<union> fst ` set (merge_loop base entry)"
    by (simp add: recursive_merge.simps Let_def keys_update [simplified])
  moreover have "fst ` set (merge_loop base entry) = fst ` set entry"
    using arg_cong [OF keys_merge_loop [of base entry], of set] by simp
  ultimately have "''description'' \<in> fst ` set (fst (recursive_merge base entry))"
    using assms by simp
  then show ?thesis by (rule pop_present)
qed

lemma wf_without_key: "wf_dict d \<Longrightarrow> wf_dict (without_key k d)"
  by (auto simp: wf_dict_def without_key_def distinct_map_filter)

lemma wf_getitem: "wf_val obj \<Longrightarrow> getitem obj k = Inr v \<Longrightarrow> wf_val v"
  by (cases obj) (auto split: option.splits dest: map_of_SomeD)

lemma wf_seq_index: "seq_index xs i = Inr x \<Longrightarrow> x \<in> set xs"
  by (auto simp: seq_index_def split: if_splits)

lemma wf_getitem_val: "wf_val obj \<Longrightarrow> getitem_val obj key = Inr v \<Longrightarrow> wf_val v"
proof (induction obj key rule: getitem_val.induct)
  case (1 d k)
  then show ?case using wf_getitem [of "VDict d" k v] by simp
qed (auto dest: wf_seq_index simp: map_sum_def split: sum.splits)

lemma wf_merge_loaded: "wf_val l \<Longrightarrow> wf_val r \<Longrightarrow> merge_loaded l r = Inr m \<Longrightarrow> wf_dict m"
proof (induction l r rule: merge_loaded.induct)
  case (1 left right)
  then show ?case using wf_merge(2) [of left right] by (auto simp: wf_dict_def)
qed simp_all

lemma wf_inputs:
  assumes "wf_val data" and "get_protocol_inputs data protocol None = Inr (inputs, ov')"
  shows "wf_dict inputs"
proof -
  from assms(2) obtain name base protocols entry merged where
      b: "getitem data ''base'' = Inr base" and
      p: "getitem data ''protocols'' = Inr protocols" and
      e: "getitem_val protocols name = Inr entry" and
      m: "merge_loaded base entry = Inr merged" and
      i: "dict_pop ''description'' merged = Inr inputs"
    unfolding get_protocol_inputs_def by (auto split: sum.splits)
  from wf_getitem [OF assms(1) b] have wb: "wf_val base" .
  from wf_getitem [OF assms(1) p] have "wf_val protocols" .
  from wf_getitem_val [OF this e] have "wf_val entry" .
  from wf_merge_loaded [OF wb this m] have "wf_dict merged" .
  with i show ?thesis
    by (auto simp: dict_pop_def wf_without_key split: option.splits)
qed

lemma descriptions_loop_result:
  assumes "distinct (map fst items)"
    and "\<forall>kv \<in> set items. \<exists>d. getitem (snd kv) ''description'' = Inr d"
  shows "\<exists>r. descriptions_loop items acc = Inr r \<and>
      fst ` set r = fst ` set acc \<union> fst ` set items \<and>
      (\<forall>n e. map_of items n = Some e \<longrightarrow>
         (\<exists>d. getitem e ''description'' = Inr d \<and> map_of r n = Some (VDict [(''description'', d)]))) \<and>
      (\<forall>n. n \<notin> fst ` set items \<longrightarrow> map_of r n = map_of acc n)"
  using assms
proof (induction items arbitrary: acc)
  case Nil
  then show ?case by simp
next
  case (Cons kv items)
  obtain p e where kv: "kv = (p, e)" by (cases kv)
  from Cons.prems(2) kv obtain d where d: "getitem e ''description'' = Inr d" by auto
  from Cons.prems kv have dist: "distinct (map fst items)" and notin: "p \<notin> fst ` set items"
    and rest: "\<forall>kv \<in> set items. \<exists>d. getitem (snd kv) ''description'' = Inr d"
    by auto
  let ?acc = "dict_setitem p (VDict [(''description'', d)]) acc"
  from Cons.IH [OF dist rest, of ?acc] obtain r where
      r: "descriptions_loop items ?acc = Inr r"
      and keys: "fst ` set r = fst ` set ?acc \<union> fst ` set items"
      and vals: "\<And>n e. map_of items n = Some e \<Longrightarrow>
         \<exists>d. getitem e ''description'' = Inr d \<and> map_of r n = Some (VDict [(''description'', d)])"
      and frame: "\<And>n. n \<notin> fst ` set items \<Longrightarrow> map_of r n = map_of ?acc n"
    by blast
  have 1: "descriptions_loop (kv # items) acc = Inr r" using r d kv by simp
  have 2: "fst ` set r = fst ` set acc \<union> fst ` set (kv # items)"
    using keys kv by (simp add: keyset_setitem)
  have 3: "\<exists>d. getitem e' ''description'' = Inr d \<and> map_of r n = Some (VDict [(''description'', d)])"
    if "map_of (kv # items) n = Some e'" for n e'
  proof (cases "n = p")
    case True
    with that kv have "e' = e" by simp
    with frame [OF notin] d True show ?thesis by (simp add: map_of_setitem)
  next
    case False
    with that kv have "map_of items n = Some e'" by simp
    then show ?thesis by (rule vals)
  qed
  have 4: "map_of r n = map_of acc n" if "n \<notin> fst ` set (kv # items)" for n
    using that frame [of n] kv by (simp add: map_of_setitem)
  from 1 2 3 4 show ?case by blast
qed

section \<open>Facts about the magnetization loop\<close>

lemma loop_fails_at:
  assumes "kind_moment T pf k = Inl e"
    and "\<forall>k' \<in> set before. \<exists>m. kind_moment T pf k' = Inr m"
  shows "magnetization_loop T pf (before @ k # after) acc = Inl e"
  using assms(2)
proof (induction before arbitrary: acc)
  case Nil
  then show ?case using assms(1) by simp
next
  case (Cons a before)
  then obtain m where "kind_moment T pf a = Inr m" by auto
  with Cons show ?case by simp
qed

lemma magnetization_loop_result:
  assumes "magnetization_loop T pf kinds acc = Inr r"
  shows "fst ` set r = fst ` set acc \<union> name ` set kinds \<and>
     (distinct (map name kinds) \<longrightarrow>
        (\<forall>k \<in> set kinds. \<exists>v. kind_moment T pf k = Inr v \<and> map_of r (name k) = Some v) \<and>
        (\<forall>n. n \<notin> name ` set kinds \<longrightarrow> map_of r n = map_of acc n))"
  using assms
proof (induction kinds arbitrary: acc)
  case Nil
  then show ?case by simp
next
  case (Cons k kinds)
  from Cons.prems obtain m where m: "kind_moment T pf k = Inr m"
      and r: "magnetization_loop T pf kinds (dict_setitem (name k) m acc) = Inr r"
    by (auto split: sum.splits)
  note IH = Cons.IH [OF r]
  have keys: "fst ` set r = fst ` set acc \<union> name ` set (k # kinds)"
    using IH by (simp add: keyset_setitem)
  have vals: "(\<forall>k' \<in> set (k # kinds). \<exists>v. kind_moment T pf k' = Inr v \<and> map_of r (name k') = Some v) \<and>
        (\<forall>n. n \<notin> name ` set (k # kinds) \<longrightarrow> map_of r n = map_of acc n)"
    if dist: "distinct (map name (k # kinds))"
  proof -
    from dist have dk: "distinct (map name kinds)" and nk: "name k \<notin> name ` set kinds" by auto
    from IH dk have v: "\<forall>k' \<in> set kinds. \<exists>v. kind_moment T pf k' = Inr v \<and> map_of r (name k') = Some v"
      and f: "\<forall>n. n \<notin> name ` set kinds \<longrightarrow> map_of r n = map_of (dict_setitem (name k) m acc) n"
      by blast+
    from f nk have "map_of r (name k) = Some m" by (simp add: map_of_setitem)
    with m v f show ?thesis by (auto simp: map_of_setitem)
  qed
  from keys vals show ?case by blast
qed

lemma kind_moment_symbol:
  "symbol k1 = symbol k2 \<Longrightarrow> kind_moment T pf k1 = kind_moment T pf k2"
  unfolding kind_moment_def by (erule subst) (rule refl)

lemma ex_kind_moments:
  "kind_moment (VDict ex_table_entries) ex_family \<lparr>symbol = ''Fe'', name = n\<rparr> = Inr (VFloat (5 / 16))"
  "kind_moment (VDict ex_table_entries) ex_family \<lparr>symbol = ''O'', name = n\<rparr> = Inr (VFloat (1 / 10))"
  by (simp_all add: kind_moment_def ex_table_entries_def ex_family_def eq_zero_def truediv_float_def)

lemma ex_magnetization:
  "get_initial_magnetization (VDict ex_table_entries) ex_kinds ex_family =
     Inr [(''Fe1'', VFloat (5 / 16)), (''Fe2'', VFloat (5 / 16)), (''O'', VFloat (1 / 10))]"
  by (simp add: get_initial_magnetization_def ex_kinds_def ex_kind_moments)

section \<open>Properties of the recursive merge\<close>

text \<open>
  C1. For mappings \<open>left\<close> and \<open>right\<close>, the keys of the merged mapping are the keys of
  \<open>left\<close> together with the keys of \<open>right\<close>. At a key of both whose two values are
  mappings, the merged value is the recursive merge of the two values. At any other key of
  both (a sequence on either side included), the merged value is the value of \<open>right\<close>. At
  a key of only one argument, the merged value is the value of that argument.
\<close>

theorem recursive_merge_contract:
  assumes "wf_dict left" and "wf_dict right"
  shows "fst ` set (fst (recursive_merge left right)) = fst ` set left \<union> fst ` set right \<and>
    (\<forall>k lv rd. map_of left k = Some (VDict lv) \<and> map_of right k = Some (VDict rd) \<longrightarrow>
       map_of (fst (recursive_merge left right)) k = Some (VDict (fst (recursive_merge lv rd)))) \<and>
    (\<forall>k a b. map_of left k = Some a \<and> map_of right k = Some b \<and> \<not> (is_mapping a \<and> is_mapping b) \<longrightarrow>
       map_of (fst (recursive_merge left right)) k = Some b) \<and>
    (\<forall>k a. map_of left k = Some a \<and> map_of right k = None \<longrightarrow>
       map_of (fst (recursive_merge left right)) k = Some a) \<and>
    (\<forall>k b. map_of left k = None \<and> map_of right k = Some b \<longrightarrow>
       map_of (fst (recursive_merge left right)) k = Some b)"
proof -
  from assms have dl: "distinct (map fst left)" and dr: "distinct (map fst right)"
    by (simp_all add: wf_dict_def)
  have keys: "map fst (merge_loop left right) = map fst right"
    by (rule keys_merge_loop)
  then have dr': "distinct (map fst (merge_loop left right))" using dr by simp
  have m: "fst (recursive_merge left right) = dict_update left (merge_loop left right)"
    by (simp add: recursive_merge.simps Let_def)
  have look: "map_of (fst (recursive_merge left right)) k =
      (case map_of (merge_loop left right) k of Some v \<Rightarrow> Some v | None \<Rightarrow> map_of left k)" for k
    unfolding m by (rule map_of_update [OF dr'])
  have "fst ` set (merge_loop left right) = fst ` set right"
    using arg_cong [OF keys, of set] by simp
  then have c1: "fst ` set (fst (recursive_merge left right)) = fst ` set left \<union> fst ` set right"
    unfolding m using keys_update [of left "merge_loop left right"] by simp
  have c2: "map_of (fst (recursive_merge left right)) k = Some (VDict (fst (recursive_merge lv rd)))"
    if "map_of left k = Some (VDict lv)" "map_of right k = Some (VDict rd)" for k lv rd
    using that by (simp add: look map_of_merge_loop [OF dl])
  have c3: "map_of (fst (recursive_merge left right)) k = Some b"
    if "map_of left k = Some a" "map_of right k = Some b" "\<not> (is_mapping a \<and> is_mapping b)" for k a b
    using that by (cases a; cases b) (simp_all add: look map_of_merge_loop [OF dl])
  have c4: "map_of (fst (recursive_merge left right)) k = Some a"
    if "map_of left k = Some a" "map_of right k = None" for k a
    using that by (simp add: look map_of_merge_loop [OF dl])
  have c5: "map_of (fst (recursive_merge left right)) k = Some b"
    if "map_of left k = None" "map_of right k = Some b" for k b
    using that by (simp add: look map_of_merge_loop [OF dl])
  show ?thesis
  proof (intro conjI allI impI; (elim conjE)?)
    show "fst ` set (fst (recursive_merge left right)) = fst ` set left \<union> fst ` set right"
      by (fact c1)
  next
    fix k lv rd
    assume "map_of left k = Some (VDict lv)" "map_of right k = Some (VDict rd)"
    then show "map_of (fst (recursive_merge left right)) k = Some (VDict (fst (recursive_merge lv rd)))"
      by (rule c2)
  next
    fix k a b
    assume "map_of left k = Some a" "map_of right k = Some b" "\<not> (is_mapping a \<and> is_mapping b)"
    then show "map_of (fst (recursive_merge left right)) k = Some b"
      by (rule c3)
  next
    fix k a
    assume "map_of left k = Some a" "map_of right k = None"
    then show "map_of (fst (recursive_merge left right)) k = Some a"
      by (rule c4)
  next
    fix k b
    assume "map_of left k = None" "map_of right k = Some b"
    then show "map_of (fst (recursive_merge left right)) k = Some b"
      by (rule c5)
  qed
qed

theorem recursive_merge_contract_witness:
  "wf_dict ex_left \<and> wf_dict ex_right \<and>
   fst ` set (fst (recursive_merge ex_left ex_right)) = {''pw'', ''clean'', ''description''} \<and>
   map_of (fst (recursive_merge ex_left ex_right)) ''pw'' =
     Some (VDict (fst (recursive_merge [(''ecutwfc'', VInt 30), (''kpts'', VList [VInt 2, VInt 2])]
                                        [(''kpts'', VList [VInt 4]), (''nbnd'', VInt 8)]))) \<and>
   map_of (fst (recursive_merge ex_left ex_right)) ''clean'' = Some (VBool True) \<and>
   map_of (fst (recursive_merge ex_left ex_right)) ''description'' = Some (VStr ''fast'')"
proof -
  have l: "wf_dict ex_left" by (simp add: ex_left_def wf_dict_def)
  have r: "wf_dict ex_right" by (simp add: ex_right_def wf_dict_def)
  have ll: "map_of ex_left ''pw'' = Some (VDict [(''ecutwfc'', VInt 30), (''kpts'', VList [VInt 2, VInt 2])])"
      "map_of ex_left ''clean'' = Some (VBool True)" "map_of ex_left ''description'' = None"
      "fst ` set ex_left = {''pw'', ''clean''}"
    by (simp_all add: ex_left_def)
  have rr: "map_of ex_right ''pw'' = Some (VDict [(''kpts'', VList [VInt 4]), (''nbnd'', VInt 8)])"
      "map_of ex_right ''clean'' = None" "map_of ex_right ''description'' = Some (VStr ''fast'')"
      "fst ` set ex_right = {''pw'', ''description''}"
    by (simp_all add: ex_right_def)
  note c = recursive_merge_contract [OF l r]
  from c ll(4) rr(4) have c1: "fst ` set (fst (recursive_merge ex_left ex_right)) =
      {''pw'', ''clean'', ''description''}" by auto
  from c ll(1) rr(1) have c2: "map_of (fst (recursive_merge ex_left ex_right)) ''pw'' =
     Some (VDict (fst (recursive_merge [(''ecutwfc'', VInt 30), (''kpts'', VList [VInt 2, VInt 2])]
                                        [(''kpts'', VList [VInt 4]), (''nbnd'', VInt 8)])))" by blast
  from c ll(2) rr(2) have c3: "map_of (fst (recursive_merge ex_left ex_right)) ''clean'' =
      Some (VBool True)" by blast
  from c ll(3) rr(3) have c4: "map_of (fst (recursive_merge ex_left ex_right)) ''description'' =
      Some (VStr ''fast'')" by blast
  from l r c1 c2 c3 c4 show ?thesis by blast
qed

text \<open>
  C6. Merging a mapping with itself gives the mapping back: \<open>recursive_merge x x\<close> returns
  \<open>x\<close>, with the same keys in the same order and the same values.
\<close>

theorem recursive_merge_idempotent:
  "wf_dict x \<Longrightarrow> fst (recursive_merge x x) = x"
  using merge_self(2) [of x x] by simp

theorem recursive_merge_idempotent_witness:
  "wf_dict ex_left \<and> fst (recursive_merge ex_left ex_left) = ex_left"
proof -
  have l: "wf_dict ex_left" by (simp add: ex_left_def wf_dict_def)
  from recursive_merge_idempotent [OF l] l show ?thesis by blast
qed

text \<open>
  C5. The claim is that \<open>recursive_merge\<close> leaves both arguments as they were. The loop
  assigns \<^verbatim>\<open>right[key] = recursive_merge(value, right[key])\<close> on the caller's object: for
  \<^verbatim>\<open>left = {'a': {'x': 1}}\<close> and \<^verbatim>\<open>right = {'a': {'y': 2}}\<close> the mapping \<open>right\<close> holds
  \<^verbatim>\<open>{'a': {'x': 1, 'y': 2}}\<close> after the call, which is not what it held before.
\<close>

theorem recursive_merge_changes_right:
  "snd (recursive_merge [(''a'', VDict [(''x'', VInt 1)])] [(''a'', VDict [(''y'', VInt 2)])]) =
      [(''a'', VDict [(''x'', VInt 1), (''y'', VInt 2)])] \<and>
   snd (recursive_merge [(''a'', VDict [(''x'', VInt 1)])] [(''a'', VDict [(''y'', VInt 2)])]) \<noteq>
      [(''a'', VDict [(''y'', VInt 2)])]"
  by (simp add: recursive_merge.simps dict_update_def Let_def)

section \<open>Properties of the protocol functions\<close>

text \<open>
  C9. The empty string as protocol name is treated as no protocol name. The call with the
  empty string returns what the call with no name returns; when the document has no usable
  \<open>default\<close> entry it fails with the error of that lookup; and when \<open>default\<close> names a
  protocol \<open>d\<close> whose entry has a \<open>description\<close>, it returns the inputs computed from the
  entry of \<open>d\<close> (the merge of \<open>base\<close> with that entry, \<open>description\<close> removed, then merged
  with the overrides if there are any), whether or not the document has an entry named by
  the empty string.
\<close>

theorem empty_protocol_name_is_default:
  "get_protocol_inputs data (Some []) overrides = get_protocol_inputs data None overrides \<and>
   (\<forall>e. getitem data ''default'' = Inl e \<longrightarrow>
      get_protocol_inputs data (Some []) overrides = Inl e) \<and>
   (\<forall>d base protocols entry.
      getitem data ''default'' = Inr (VStr d) \<and>
      getitem data ''base'' = Inr (VDict base) \<and>
      getitem data ''protocols'' = Inr (VDict protocols) \<and>
      map_of protocols d = Some (VDict entry) \<and>
      ''description'' \<in> fst ` set entry \<longrightarrow>
      get_protocol_inputs data (Some []) overrides =
        (case overrides of
           None \<Rightarrow> Inr (without_key ''description'' (fst (recursive_merge base entry)), None)
         | Some ov \<Rightarrow>
             if ov = []
             then Inr (without_key ''description'' (fst (recursive_merge base entry)), Some ov)
             else Inr (fst (recursive_merge
                              (without_key ''description'' (fst (recursive_merge base entry))) ov),
                       Some (snd (recursive_merge
                              (without_key ''description'' (fst (recursive_merge base entry))) ov)))))"
proof (intro conjI allI impI; (elim conjE)?)
  show "get_protocol_inputs data (Some []) overrides = get_protocol_inputs data None overrides"
    by (simp add: get_protocol_inputs_def)
next
  fix e
  assume "getitem data ''default'' = Inl e"
  then show "get_protocol_inputs data (Some []) overrides = Inl e"
    by (simp add: get_protocol_inputs_def)
next
  fix d base protocols entry
  assume a: "getitem data ''default'' = Inr (VStr d)"
    "getitem data ''base'' = Inr (VDict base)"
    "getitem data ''protocols'' = Inr (VDict protocols)"
    "map_of protocols d = Some (VDict entry)"
    and desc: "''description'' \<in> fst ` set entry"
  from a description_popped [OF desc, of base]
  show "get_protocol_inputs data (Some []) overrides =
        (case overrides of
           None \<Rightarrow> Inr (without_key ''description'' (fst (recursive_merge base entry)), None)
         | Some ov \<Rightarrow>
             if ov = []
             then Inr (without_key ''description'' (fst (recursive_merge base entry)), Some ov)
             else Inr (fst (recursive_merge
                              (without_key ''description'' (fst (recursive_merge base entry))) ov),
                       Some (snd (recursive_merge
                              (without_key ''description'' (fst (recursive_merge base entry))) ov))))"
    by (simp add: get_protocol_inputs_def split: option.splits)
qed

theorem empty_protocol_name_is_default_witness:
  "getitem ex_unnamed_doc ''default'' = Inr (VStr ''fast'') \<and>
   getitem ex_unnamed_doc ''base'' = Inr (VDict []) \<and>
   getitem ex_unnamed_doc ''protocols'' =
     Inr (VDict [('''', VDict [(''description'', VStr ''unnamed''), (''k'', VInt 1)]),
                 (''fast'', VDict [(''description'', VStr ''quick''), (''k'', VInt 2)])]) \<and>
   get_protocol_inputs ex_unnamed_doc (Some '''') None =
     Inr (without_key ''description''
            (fst (recursive_merge [] [(''description'', VStr ''quick''), (''k'', VInt 2)])), None) \<and>
   without_key ''description''
     (fst (recursive_merge [] [(''description'', VStr ''quick''), (''k'', VInt 2)])) =
     [(''k'', VInt 2)]"
proof -
  have d: "getitem ex_unnamed_doc ''default'' = Inr (VStr ''fast'')"
    by (simp add: ex_unnamed_doc_def)
  have b: "getitem ex_unnamed_doc ''base'' = Inr (VDict [])"
    by (simp add: ex_unnamed_doc_def)
  have p: "getitem ex_unnamed_doc ''protocols'' =
     Inr (VDict [('''', VDict [(''description'', VStr ''unnamed''), (''k'', VInt 1)]),
                 (''fast'', VDict [(''description'', VStr ''quick''), (''k'', VInt 2)])])"
    by (simp add: ex_unnamed_doc_def)
  have e: "map_of [('''', VDict [(''description'', VStr ''unnamed''), (''k'', VInt 1)]),
                   (''fast'', VDict [(''description'', VStr ''quick''), (''k'', VInt 2)])] ''fast'' =
      Some (VDict [(''description'', VStr ''quick''), (''k'', VInt 2)])"
    by simp
  have i: "''description'' \<in> fst ` set [(''description'', VStr ''quick''), (''k'', VInt 2)]"
    by simp
  have v: "without_key ''description''
     (fst (recursive_merge [] [(''description'', VStr ''quick''), (''k'', VInt 2)])) =
     [(''k'', VInt 2)]"
    by (simp add: without_key_def recursive_merge.simps dict_update_def Let_def)
  note t = empty_protocol_name_is_default [of ex_unnamed_doc None, THEN conjunct2, THEN conjunct2,
      rule_format]
  from t [OF conjI [OF d conjI [OF b conjI [OF p conjI [OF e i]]]]]
  have "get_protocol_inputs ex_unnamed_doc (Some '''') None =
     Inr (without_key ''description''
            (fst (recursive_merge [] [(''description'', VStr ''quick''), (''k'', VInt 2)])), None)"
    by simp
  with d b p v show ?thesis by blast
qed

text \<open>
  C2. The claim: for a document whose entry for the named protocol has a \<open>description\<close>,
  the call with that name and no overrides returns the merge of \<open>base\<close> with the entry,
  without \<open>description\<close>; with no name the protocol named by \<open>default\<close> is taken. The
  code takes the default also when the name is the empty string, so the first part holds for
  every name but the empty one: in the document below the entry named by the empty string has
  a \<open>description\<close>, and the call with the empty name returns the inputs of the default
  protocol \<open>fast\<close>, not those of that entry.
\<close>

theorem get_protocol_inputs_empty_name_counterexample:
  "getitem ex_unnamed_doc ''protocols'' =
     Inr (VDict [('''', VDict [(''description'', VStr ''unnamed''), (''k'', VInt 1)]),
                 (''fast'', VDict [(''description'', VStr ''quick''), (''k'', VInt 2)])]) \<and>
   getitem ex_unnamed_doc ''base'' = Inr (VDict []) \<and>
   get_protocol_inputs ex_unnamed_doc (Some '''') None = Inr ([(''k'', VInt 2)], None) \<and>
   without_key ''description''
     (fst (recursive_merge [] [(''description'', VStr ''unnamed''), (''k'', VInt 1)])) =
     [(''k'', VInt 1)] \<and>
   get_protocol_inputs ex_unnamed_doc (Some '''') None \<noteq>
     Inr (without_key ''description''
            (fst (recursive_merge [] [(''description'', VStr ''unnamed''), (''k'', VInt 1)])), None)"
  by (simp add: get_protocol_inputs_def ex_unnamed_doc_def dict_pop_def without_key_def
      recursive_merge.simps dict_update_def Let_def)

text \<open>
  C2, as amended. For every document with a mapping \<open>base\<close> and a mapping \<open>protocols\<close>
  whose entry for \<open>p\<close> is a mapping with a \<open>description\<close> key: the call with the non-empty
  name \<open>p\<close> and no overrides returns the recursive merge of \<open>base\<close> with that entry, the
  \<open>description\<close> key removed; and the call with no name returns the same when the document's
  \<open>default\<close> is \<open>p\<close>.
\<close>

theorem get_protocol_inputs_no_overrides:
  assumes "getitem data ''base'' = Inr (VDict base)"
    and "getitem data ''protocols'' = Inr (VDict protocols)"
    and "map_of protocols p = Some (VDict entry)"
    and "''description'' \<in> fst ` set entry"
  shows "(p \<noteq> [] \<longrightarrow>
           get_protocol_inputs data (Some p) None =
             Inr (without_key ''description'' (fst (recursive_merge base entry)), None)) \<and>
         (getitem data ''default'' = Inr (VStr p) \<longrightarrow>
           get_protocol_inputs data None None =
             Inr (without_key ''description'' (fst (recursive_merge base entry)), None))"
proof -
  have "fst ` set (fst (recursive_merge base entry)) =
      fst ` set base \<union> fst ` set (merge_loop base entry)"
    by (simp add: recursive_merge.simps Let_def keys_update [simplified])
  moreover have "fst ` set (merge_loop base entry) = fst ` set entry"
    using arg_cong [OF keys_merge_loop [of base entry], of set] by simp
  ultimately have "''description'' \<in> fst ` set (fst (recursive_merge base entry))"
    using assms(4) by simp
  then have pop: "dict_pop ''description'' (fst (recursive_merge base entry)) =
      Inr (without_key ''description'' (fst (recursive_merge base entry)))"
    by (rule pop_present)
  from assms(1-3) pop show ?thesis
    by (simp add: get_protocol_inputs_def)
qed

theorem get_protocol_inputs_no_overrides_witness:
  "getitem ex_doc ''base'' = Inr (VDict ex_base) \<and>
   getitem ex_doc ''protocols'' = Inr (VDict ex_protocols) \<and>
   map_of ex_protocols ''moderate'' = Some (VDict [(''description'', VStr ''balanced'')]) \<and>
   getitem ex_doc ''default'' = Inr (VStr ''moderate'') \<and>
   get_protocol_inputs ex_doc (Some ''moderate'') None =
     Inr (without_key ''description''
            (fst (recursive_merge ex_base [(''description'', VStr ''balanced'')])), None) \<and>
   get_protocol_inputs ex_doc None None =
     Inr (without_key ''description''
            (fst (recursive_merge ex_base [(''description'', VStr ''balanced'')])), None)"
proof -
  have b: "getitem ex_doc ''base'' = Inr (VDict ex_base)"
    by (simp add: ex_doc_def ex_base_def)
  have p: "getitem ex_doc ''protocols'' = Inr (VDict ex_protocols)"
    by (simp add: ex_doc_def ex_protocols_def)
  have e: "map_of ex_protocols ''moderate'' = Some (VDict [(''description'', VStr ''balanced'')])"
    by (simp add: ex_protocols_def)
  have d: "''description'' \<in> fst ` set [(''description'', VStr ''balanced'')]" by simp
  have n: "''moderate'' \<noteq> []" by simp
  have f: "getitem ex_doc ''default'' = Inr (VStr ''moderate'')" by (simp add: ex_doc_def)
  from get_protocol_inputs_no_overrides [OF b p e d] n f b p e show ?thesis by blast
qed

text \<open>
  C3. When the call without overrides returns \<open>inputs\<close>, the call with a non-empty mapping
  of overrides returns the recursive merge of \<open>inputs\<close> with the overrides. Every leaf of
  the overrides (a path of keys ending in a value that is not a mapping) is found in the
  result at the same path with the same value, whatever the protocol and the base hold
  there; where both sides hold a mapping under a key, the result holds their merge.
\<close>

theorem overrides_take_precedence:
  assumes "wf_val data" and "wf_dict overrides" and "overrides \<noteq> []"
    and "get_protocol_inputs data protocol None = Inr (inputs, None)"
  shows "get_protocol_inputs data protocol (Some overrides) =
           Inr (fst (recursive_merge inputs overrides), Some (snd (recursive_merge inputs overrides))) \<and>
         (\<forall>path v. at_path (VDict overrides) path = Some v \<and> \<not> is_mapping v \<longrightarrow>
            at_path (VDict (fst (recursive_merge inputs overrides))) path = Some v) \<and>
         (\<forall>k a b. map_of inputs k = Some (VDict a) \<and> map_of overrides k = Some (VDict b) \<longrightarrow>
            map_of (fst (recursive_merge inputs overrides)) k = Some (VDict (fst (recursive_merge a b))))"
proof -
  have wi: "wf_dict inputs" using wf_inputs [OF assms(1,4)] .
  show ?thesis
  proof (intro conjI allI impI; (elim conjE)?)
    from assms(3,4) show "get_protocol_inputs data protocol (Some overrides) =
        Inr (fst (recursive_merge inputs overrides), Some (snd (recursive_merge inputs overrides)))"
      unfolding get_protocol_inputs_def by (auto split: sum.splits)
  next
    fix path v
    assume "at_path (VDict overrides) path = Some v" "\<not> is_mapping v"
    then show "at_path (VDict (fst (recursive_merge inputs overrides))) path = Some v"
      by (rule merge_leaf [OF wi assms(2)])
  next
    fix k a b
    assume "map_of inputs k = Some (VDict a)" "map_of overrides k = Some (VDict b)"
    then show "map_of (fst (recursive_merge inputs overrides)) k =
        Some (VDict (fst (recursive_merge a b)))"
      by (rule merged_both [OF wi assms(2)])
  qed
qed

theorem overrides_take_precedence_witness:
  "wf_val ex_doc \<and> wf_dict ex_overrides \<and> ex_overrides \<noteq> [] \<and>
   get_protocol_inputs ex_doc (Some ''fast'') None = Inr (ex_fast_inputs, None) \<and>
   at_path (VDict ex_overrides) [''pw'', ''ecutwfc''] = Some (VInt 50) \<and>
   at_path (VDict (fst (recursive_merge ex_fast_inputs ex_overrides))) [''pw'', ''ecutwfc''] =
     Some (VInt 50)"
proof -
  have w: "wf_val ex_doc" by (simp add: ex_doc_def)
  have o: "wf_dict ex_overrides" by (simp add: ex_overrides_def wf_dict_def)
  have n: "ex_overrides \<noteq> []" by (simp add: ex_overrides_def)
  have g: "get_protocol_inputs ex_doc (Some ''fast'') None = Inr (ex_fast_inputs, None)"
    by (simp add: get_protocol_inputs_def ex_doc_def ex_fast_inputs_def dict_pop_def
        without_key_def recursive_merge.simps dict_update_def Let_def)
  have l: "at_path (VDict ex_overrides) [''pw'', ''ecutwfc''] = Some (VInt 50)"
    by (simp add: ex_overrides_def)
  have m: "\<not> is_mapping (VInt 50)" by simp
  from overrides_take_precedence [OF w o n g] l m
  have "at_path (VDict (fst (recursive_merge ex_fast_inputs ex_overrides))) [''pw'', ''ecutwfc''] =
     Some (VInt 50)" by blast
  with w o n g l show ?thesis by blast
qed

text \<open>
  C7. For a document whose \<open>protocols\<close> entry is a mapping of protocol names to mappings
  that each have a \<open>description\<close>, \<open>get_available_protocols\<close> returns a mapping whose keys
  are exactly the protocol names and whose value for a protocol is the mapping with the one
  key \<open>description\<close> and that protocol's description.
\<close>

theorem available_protocols_descriptions:
  assumes "getitem data ''protocols'' = Inr (VDict protocols)"
    and "distinct (map fst protocols)"
    and "\<forall>kv \<in> set protocols. \<exists>d. getitem (snd kv) ''description'' = Inr d"
  shows "\<exists>r. get_available_protocols data = Inr r \<and>
      fst ` set r = fst ` set protocols \<and>
      (\<forall>n e. map_of protocols n = Some e \<longrightarrow>
         (\<exists>d. getitem e ''description'' = Inr d \<and> map_of r n = Some (VDict [(''description'', d)])))"
proof -
  from descriptions_loop_result [OF assms(2,3), of "[]"] obtain r where
      "descriptions_loop protocols [] = Inr r" "fst ` set r = fst ` set protocols"
      "\<forall>n e. map_of protocols n = Some e \<longrightarrow>
         (\<exists>d. getitem e ''description'' = Inr d \<and> map_of r n = Some (VDict [(''description'', d)]))"
    by auto
  with assms(1) show ?thesis by (simp add: get_available_protocols_def)
qed

theorem available_protocols_descriptions_witness:
  "getitem ex_doc ''protocols'' = Inr (VDict ex_protocols) \<and>
   distinct (map fst ex_protocols) \<and>
   (\<exists>r. get_available_protocols ex_doc = Inr r \<and>
        fst ` set r = {''moderate'', ''fast''} \<and>
        map_of r ''fast'' = Some (VDict [(''description'', VStr ''quick'')]))"
proof -
  have p: "getitem ex_doc ''protocols'' = Inr (VDict ex_protocols)"
    by (simp add: ex_doc_def ex_protocols_def)
  have d: "distinct (map fst ex_protocols)" by (simp add: ex_protocols_def)
  have a: "\<forall>kv \<in> set ex_protocols. \<exists>d. getitem (snd kv) ''description'' = Inr d"
    by (simp add: ex_protocols_def)
  have k: "fst ` set ex_protocols = {''moderate'', ''fast''}" by (simp add: ex_protocols_def)
  have f: "map_of ex_protocols ''fast'' =
      Some (VDict [(''description'', VStr ''quick''), (''pw'', VDict [(''ecutwfc'', VInt 20)])])"
    by (simp add: ex_protocols_def)
  from available_protocols_descriptions [OF p d a] obtain r where
      r: "get_available_protocols ex_doc = Inr r" "fst ` set r = fst ` set ex_protocols"
      and v: "\<And>n e. map_of ex_protocols n = Some e \<Longrightarrow>
         \<exists>d. getitem e ''description'' = Inr d \<and> map_of r n = Some (VDict [(''description'', d)])"
    by blast
  from v [OF f] have "map_of r ''fast'' = Some (VDict [(''description'', VStr ''quick'')])"
    by simp
  with r k p d show ?thesis by auto
qed

text \<open>
  C8. The claim: a protocol name that is not a key of the document's \<open>protocols\<close> mapping
  makes \<open>get_protocol_inputs\<close> fail with \<^verbatim>\<open>KeyError\<close>, and so does a symbol that is not a
  key of the magnetization table for \<open>get_initial_magnetization\<close>. The first part fails for
  the empty string: it is no key of the \<open>protocols\<close> mapping of the document below, and the
  call with it returns the inputs of the default protocol, as \<^verbatim>\<open>protocol or data['default']\<close>
  makes it.
\<close>

theorem absent_empty_name_counterexample:
  "getitem ex_doc ''protocols'' = Inr (VDict ex_protocols) \<and>
   map_of ex_protocols '''' = None \<and>
   get_protocol_inputs ex_doc (Some '''') None = Inr (ex_base, None) \<and>
   get_protocol_inputs ex_doc (Some '''') None \<noteq> Inl KeyError"
  by (simp add: get_protocol_inputs_def ex_doc_def ex_protocols_def ex_base_def dict_pop_def
      without_key_def recursive_merge.simps dict_update_def Let_def)

text \<open>
  C8, as amended. A non-empty protocol name that is not a key of the document's
  \<open>protocols\<close> mapping makes \<open>get_protocol_inputs\<close> fail with \<^verbatim>\<open>KeyError\<close>; a kind whose
  symbol is not a key of the magnetization table, reached after kinds that were handled
  without error, makes \<open>get_initial_magnetization\<close> fail with \<^verbatim>\<open>KeyError\<close>. In both cases
  the call returns the error and no mapping.
\<close>

theorem missing_key_propagates:
  "(getitem data ''protocols'' = Inr (VDict protocols) \<and> p \<noteq> [] \<and> map_of protocols p = None \<longrightarrow>
      get_protocol_inputs data (Some p) overrides = Inl KeyError) \<and>
   ((\<forall>k' \<in> set before. \<exists>m. kind_moment (VDict table) pseudo_family k' = Inr m) \<and>
    map_of table (symbol k) = None \<longrightarrow>
      get_initial_magnetization (VDict table) (before @ k # after) pseudo_family = Inl KeyError)"
proof (intro conjI impI; (elim conjE)?)
  assume a: "getitem data ''protocols'' = Inr (VDict protocols)" "p \<noteq> []" "map_of protocols p = None"
  then obtain d where d: "data = VDict d" by (cases data) simp_all
  show "get_protocol_inputs data (Some p) overrides = Inl KeyError"
  proof (cases "map_of d ''base''")
    case None
    with a d show ?thesis by (simp add: get_protocol_inputs_def)
  next
    case (Some b)
    with a d show ?thesis by (simp add: get_protocol_inputs_def)
  qed
next
  assume ok: "\<forall>k' \<in> set before. \<exists>m. kind_moment (VDict table) pseudo_family k' = Inr m"
    and miss: "map_of table (symbol k) = None"
  from miss have "kind_moment (VDict table) pseudo_family k = Inl KeyError"
    by (simp add: kind_moment_def)
  from loop_fails_at [OF this ok]
  show "get_initial_magnetization (VDict table) (before @ k # after) pseudo_family = Inl KeyError"
    by (simp add: get_initial_magnetization_def)
qed

theorem missing_key_propagates_witness:
  "getitem ex_doc ''protocols'' = Inr (VDict ex_protocols) \<and> ''precise'' \<noteq> [] \<and>
   map_of ex_protocols ''precise'' = None \<and>
   get_protocol_inputs ex_doc (Some ''precise'') None = Inl KeyError \<and>
   ex_kinds = [\<lparr>symbol = ''Fe'', name = ''Fe1''\<rparr>, \<lparr>symbol = ''Fe'', name = ''Fe2''\<rparr>,
               \<lparr>symbol = ''O'', name = ''O''\<rparr>] \<and>
   kind_moment (VDict ex_table_entries) ex_family \<lparr>symbol = ''Fe'', name = ''Fe1''\<rparr> =
     Inr (VFloat (5 / 16)) \<and>
   kind_moment (VDict ex_table_entries) ex_family \<lparr>symbol = ''Fe'', name = ''Fe2''\<rparr> =
     Inr (VFloat (5 / 16)) \<and>
   kind_moment (VDict ex_table_entries) ex_family \<lparr>symbol = ''O'', name = ''O''\<rparr> =
     Inr (VFloat (1 / 10)) \<and>
   map_of ex_table_entries (symbol ex_unknown_kind) = None \<and>
   get_initial_magnetization (VDict ex_table_entries) (ex_kinds @ ex_unknown_kind # []) ex_family =
     Inl KeyError"
proof -
  have p: "getitem ex_doc ''protocols'' = Inr (VDict ex_protocols)"
    by (simp add: ex_doc_def ex_protocols_def)
  have n: "''precise'' \<noteq> []" by simp
  have a: "map_of ex_protocols ''precise'' = None" by (simp add: ex_protocols_def)
  have ok: "\<forall>k' \<in> set ex_kinds. \<exists>m. kind_moment (VDict ex_table_entries) ex_family k' = Inr m"
    by (simp add: ex_kinds_def ex_kind_moments)
  have miss: "map_of ex_table_entries (symbol ex_unknown_kind) = None"
    by (simp add: ex_table_entries_def ex_unknown_kind_def)
  note t = missing_key_propagates [of ex_doc ex_protocols "''precise''" None ex_kinds
      ex_table_entries ex_family ex_unknown_kind "[]"]
  from t p n a have 1: "get_protocol_inputs ex_doc (Some ''precise'') None = Inl KeyError" by blast
  from t ok miss have 2: "get_initial_magnetization (VDict ex_table_entries)
      (ex_kinds @ ex_unknown_kind # []) ex_family = Inl KeyError" by blast
  from p n a 1 miss 2 show ?thesis by (simp add: ex_kinds_def ex_kind_moments)
qed

section \<open>Properties of the initial magnetization\<close>

text \<open>
  C4. In the mapping that \<open>get_initial_magnetization\<close> returns for a structure with distinct
  kind names, a kind whose tabulated \<open>magmom\<close> equals zero is assigned the table's
  \<open>default\<close> value, with no use of the valence count; a kind whose tabulated \<open>magmom\<close> is
  not zero is assigned that moment divided by the valence count that the pseudopotential
  family gives for the kind's symbol.
\<close>

theorem initial_magnetization_values:
  assumes "get_initial_magnetization T kinds pf = Inr r"
    and "distinct (map name kinds)"
    and "k \<in> set kinds"
  shows "\<exists>entry m. getitem T (symbol k) = Inr entry \<and> getitem entry ''magmom'' = Inr m \<and>
     (eq_zero m \<longrightarrow> (\<exists>d. getitem T ''default'' = Inr d \<and> map_of r (name k) = Some d)) \<and>
     (\<not> eq_zero m \<longrightarrow>
        (\<exists>x z. as_number m = Some x \<and> pf (symbol k) = Inr z \<and> z \<noteq> 0 \<and>
               map_of r (name k) = Some (VFloat (x / real_of_int z))))"
proof -
  from magnetization_loop_result [OF assms(1) [unfolded get_initial_magnetization_def]] assms(2,3)
  obtain v where v: "kind_moment T pf k = Inr v" and look: "map_of r (name k) = Some v"
    by blast
  from v obtain entry m where e: "getitem T (symbol k) = Inr entry"
      and m: "getitem entry ''magmom'' = Inr m"
    by (auto simp: kind_moment_def split: sum.splits)
  have z: "\<exists>d. getitem T ''default'' = Inr d \<and> map_of r (name k) = Some d" if "eq_zero m"
    using v e m that look by (simp add: kind_moment_def)
  have nz: "\<exists>x z. as_number m = Some x \<and> pf (symbol k) = Inr z \<and> z \<noteq> 0 \<and>
               map_of r (name k) = Some (VFloat (x / real_of_int z))" if "\<not> eq_zero m"
    using v e m that look
    by (auto simp: kind_moment_def truediv_float_def split: sum.splits option.splits if_splits)
  from e m z nz show ?thesis by blast
qed

theorem initial_magnetization_values_witness:
  "get_initial_magnetization (VDict ex_table_entries) ex_kinds ex_family =
     Inr [(''Fe1'', VFloat (5 / 16)), (''Fe2'', VFloat (5 / 16)), (''O'', VFloat (1 / 10))] \<and>
   distinct (map name ex_kinds) \<and>
   \<lparr>symbol = ''Fe'', name = ''Fe1''\<rparr> \<in> set ex_kinds \<and>
   (\<exists>entry m. getitem (VDict ex_table_entries) ''Fe'' = Inr entry \<and>
      getitem entry ''magmom'' = Inr m \<and> \<not> eq_zero m \<and>
      (\<exists>x z. as_number m = Some x \<and> ex_family ''Fe'' = Inr z \<and> z \<noteq> 0 \<and>
         map_of [(''Fe1'', VFloat (5 / 16)), (''Fe2'', VFloat (5 / 16)), (''O'', VFloat (1 / 10))] ''Fe1'' =
           Some (VFloat (x / real_of_int z))))"
proof -
  have d: "distinct (map name ex_kinds)" by (simp add: ex_kinds_def)
  have k: "\<lparr>symbol = ''Fe'', name = ''Fe1''\<rparr> \<in> set ex_kinds" by (simp add: ex_kinds_def)
  from initial_magnetization_values [OF ex_magnetization d k]
  obtain entry m where e: "getitem (VDict ex_table_entries) ''Fe'' = Inr entry"
      "getitem entry ''magmom'' = Inr m"
      and nz: "\<not> eq_zero m \<longrightarrow>
        (\<exists>x z. as_number m = Some x \<and> ex_family ''Fe'' = Inr z \<and> z \<noteq> 0 \<and>
           map_of [(''Fe1'', VFloat (5 / 16)), (''Fe2'', VFloat (5 / 16)), (''O'', VFloat (1 / 10))] ''Fe1'' =
             Some (VFloat (x / real_of_int z)))"
    by auto
  from e have "m = VInt 5" by (auto simp: ex_table_entries_def)
  then have "\<not> eq_zero m" by (simp add: eq_zero_def)
  with e nz ex_magnetization d k show ?thesis by blast
qed

text \<open>
  C10. When \<open>get_initial_magnetization\<close> succeeds, the keys of the returned mapping are
  exactly the names of the structure's kinds. The table and the pseudopotential family are
  consulted by symbol: two kinds of a structure (kind names distinct) with the same symbol
  have each an entry, under their own names, and the two values are equal.
\<close>

theorem initial_magnetization_keys:
  assumes "get_initial_magnetization T kinds pf = Inr r"
  shows "fst ` set r = name ` set kinds \<and>
     (distinct (map name kinds) \<longrightarrow>
        (\<forall>k1 \<in> set kinds. \<forall>k2 \<in> set kinds. symbol k1 = symbol k2 \<longrightarrow>
           (\<exists>v. map_of r (name k1) = Some v \<and> map_of r (name k2) = Some v)))"
proof -
  note res = magnetization_loop_result [OF assms [unfolded get_initial_magnetization_def]]
  from res have keys: "fst ` set r = name ` set kinds" by simp
  have eq: "\<exists>v. map_of r (name k1) = Some v \<and> map_of r (name k2) = Some v"
    if "distinct (map name kinds)" "k1 \<in> set kinds" "k2 \<in> set kinds" "symbol k1 = symbol k2"
    for k1 k2
  proof -
    from res that(1,2) obtain v1 where 1: "kind_moment T pf k1 = Inr v1" "map_of r (name k1) = Some v1"
      by blast
    from res that(1,3) obtain v2 where 2: "kind_moment T pf k2 = Inr v2" "map_of r (name k2) = Some v2"
      by blast
    from kind_moment_symbol [OF that(4), of T pf] 1 2 show ?thesis by simp
  qed
  from keys eq show ?thesis by blast
qed

theorem initial_magnetization_keys_witness:
  "get_initial_magnetization (VDict ex_table_entries) ex_kinds ex_family =
     Inr [(''Fe1'', VFloat (5 / 16)), (''Fe2'', VFloat (5 / 16)), (''O'', VFloat (1 / 10))] \<and>
   distinct (map name ex_kinds) \<and>
   fst ` set [(''Fe1'', VFloat (5 / 16)), (''Fe2'', VFloat (5 / 16)), (''O'', VFloat (1 / 10))] =
     name ` set ex_kinds \<and>
   (\<exists>v. map_of [(''Fe1'', VFloat (5 / 16)), (''Fe2'', VFloat (5 / 16)), (''O'', VFloat (1 / 10))] ''Fe1'' = Some v \<and>
        map_of [(''Fe1'', VFloat (5 / 16)), (''Fe2'', VFloat (5 / 16)), (''O'', VFloat (1 / 10))] ''Fe2'' = Some v)"
proof -
  have d: "distinct (map name ex_kinds)" by (simp add: ex_kinds_def)
  have k1: "\<lparr>symbol = ''Fe'', name = ''Fe1''\<rparr> \<in> set ex_kinds"
    and k2: "\<lparr>symbol = ''Fe'', name = ''Fe2''\<rparr> \<in> set ex_kinds"
    by (simp_all add: ex_kinds_def)
  note t = initial_magnetization_keys [OF ex_magnetization]
  from t have keys: "fst ` set [(''Fe1'', VFloat (5 / 16)), (''Fe2'', VFloat (5 / 16)), (''O'', VFloat (1 / 10))] =
     name ` set ex_kinds" by blast
  from t d have "\<forall>k1 \<in> set ex_kinds. \<forall>k2 \<in> set ex_kinds. symbol k1 = symbol k2 \<longrightarrow>
      (\<exists>v. map_of [(''Fe1'', VFloat (5 / 16)), (''Fe2'', VFloat (5 / 16)), (''O'', VFloat (1 / 10))] (name k1) = Some v \<and>
           map_of [(''Fe1'', VFloat (5 / 16)), (''Fe2'', VFloat (5 / 16)), (''O'', VFloat (1 / 10))] (name k2) = Some v)"
    by blast
  from this [rule_format, OF k1 k2] have "\<exists>v. map_of [(''Fe1'', VFloat (5 / 16)), (''Fe2'', VFloat (5 / 16)), (''O'', VFloat (1 / 10))] ''Fe1'' = Some v \<and>
        map_of [(''Fe1'', VFloat (5 / 16)), (''Fe2'', VFloat (5 / 16)), (''O'', VFloat (1 / 10))] ''Fe2'' = Some v"
    by simp
  with ex_magnetization d keys show ?thesis by blast
qed

end
